theory Spec2Isabelle
  imports
    Complex_Main
    "HOL-Library.Char_ord"
    "HOL-Library.List_Lexorder"
    "HOL-Library.AList"
    "HOL-Library.Word"
begin

unbundle bit_operations_syntax

section \<open>RoadMigrate: the migration engine of \<^verbatim>\<open>roadmigrate/migrate.py\<close>\<close>

text \<open>
  A Python \<^verbatim>\<open>str\<close> is modelled by the list of its UTF-8 bytes (\<^typ>\<open>string\<close>).
  The order on strings is the lexicographic order on bytes, which is the order Python
  gives \<^verbatim>\<open>str\<close> (UTF-8 keeps the order of code points); the empty list is the only
  falsy string.

  A callable (\<^verbatim>\<open>up_fn\<close>, \<^verbatim>\<open>down_fn\<close>, the backend \<^verbatim>\<open>executor\<close>, a hook handler) acts on
  the world outside the migrator and either returns or raises an \<^verbatim>\<open>Exception\<close> whose
  \<^verbatim>\<open>str()\<close> is carried along. The world holds the wall clock that \<^verbatim>\<open>time.time()\<close> and
  \<^verbatim>\<open>datetime.now()\<close> read (seconds, as a real number) and whatever else the callables
  touch. Callables do not reach back into the migrator's own objects, and logging is
  left out.
\<close>

subsection \<open>MD5, as \<^verbatim>\<open>hashlib.md5(...).hexdigest()\<close> computes it (RFC 1321)\<close>

type_synonym byte = "8 word"
type_synonym u32 = "32 word"

definition md5_K :: "u32 list" where
  "md5_K =
    [0xd76aa478, 0xe8c7b756, 0x242070db, 0xc1bdceee,
     0xf57c0faf, 0x4787c62a, 0xa8304613, 0xfd469501,
     0x698098d8, 0x8b44f7af, 0xffff5bb1, 0x895cd7be,
     0x6b901122, 0xfd987193, 0xa679438e, 0x49b40821,
     0xf61e2562, 0xc040b340, 0x265e5a51, 0xe9b6c7aa,
     0xd62f105d, 0x02441453, 0xd8a1e681, 0xe7d3fbc8,
     0x21e1cde6, 0xc33707d6, 0xf4d50d87, 0x455a14ed,
     0xa9e3e905, 0xfcefa3f8, 0x676f02d9, 0x8d2a4c8a,
     0xfffa3942, 0x8771f681, 0x6d9d6122, 0xfde5380c,
     0xa4beea44, 0x4bdecfa9, 0xf6bb4b60, 0xbebfbc70,
     0x289b7ec6, 0xeaa127fa, 0xd4ef3085, 0x04881d05,
     0xd9d4d039, 0xe6db99e5, 0x1fa27cf8, 0xc4ac5665,
     0xf4292244, 0x432aff97, 0xab9423a7, 0xfc93a039,
     0x655b59c3, 0x8f0ccc92, 0xffeff47d, 0x85845dd1,
     0x6fa87e4f, 0xfe2ce6e0, 0xa3014314, 0x4e0811a1,
     0xf7537e82, 0xbd3af235, 0x2ad7d2bb, 0xeb86d391]"

definition md5_s :: "nat list" where
  "md5_s =
    [7, 12, 17, 22, 7, 12, 17, 22, 7, 12, 17, 22, 7, 12, 17, 22,
     5,  9, 14, 20, 5,  9, 14, 20, 5,  9, 14, 20, 5,  9, 14, 20,
     4, 11, 16, 23, 4, 11, 16, 23, 4, 11, 16, 23, 4, 11, 16, 23,
     6, 10, 15, 21, 6, 10, 15, 21, 6, 10, 15, 21, 6, 10, 15, 21]"

definition le_bytes :: "nat \<Rightarrow> 'a::len word \<Rightarrow> byte list" where
  "le_bytes n w = map (\<lambda>i. ucast (drop_bit (8 * i) w)) [0..<n]"

definition md5_pad :: "byte list \<Rightarrow> byte list" where
  "md5_pad bs =
     bs @ [0x80] @ replicate ((119 - length bs mod 64) mod 64) 0
        @ le_bytes 8 (word_of_nat (8 * length bs) :: 64 word)"

fun le_words :: "byte list \<Rightarrow> u32 list" where
  "le_words (b0 # b1 # b2 # b3 # bs) =
     (ucast b0 OR push_bit 8 (ucast b1) OR push_bit 16 (ucast b2) OR push_bit 24 (ucast b3))
       # le_words bs"
| "le_words _ = []"

type_synonym md5_state = "u32 \<times> u32 \<times> u32 \<times> u32"

fun md5_step :: "u32 list \<Rightarrow> nat \<Rightarrow> md5_state \<Rightarrow> md5_state" where
  "md5_step M i (A, B, C, D) =
     (let (F, g) =
            (if i < 16 then ((B AND C) OR (NOT B AND D), i)
             else if i < 32 then ((D AND B) OR (NOT D AND C), (5 * i + 1) mod 16)
             else if i < 48 then (B XOR C XOR D, (3 * i + 5) mod 16)
             else (C XOR (B OR NOT D), (7 * i) mod 16));
          F' = F + A + md5_K ! i + M ! g
      in (D, B + word_rotl (md5_s ! i) F', B, C))"

fun md5_chunk :: "md5_state \<Rightarrow> byte list \<Rightarrow> md5_state" where
  "md5_chunk (a0, b0, c0, d0) chunk =
     (let (A, B, C, D) = fold (md5_step (le_words chunk)) [0..<64] (a0, b0, c0, d0)
      in (a0 + A, b0 + B, c0 + C, d0 + D))"

function chunks64 :: "byte list \<Rightarrow> byte list list" where
  "chunks64 bs = (if bs = [] then [] else take 64 bs # chunks64 (drop 64 bs))"
  by pat_completeness auto
termination
  by (relation "measure length") auto

definition md5_digest :: "byte list \<Rightarrow> byte list" where
  "md5_digest bs =
     (let (a, b, c, d) =
            foldl md5_chunk (0x67452301, 0xefcdab89, 0x98badcfe, 0x10325476)
              (chunks64 (md5_pad bs))
      in concat (map (le_bytes 4) [a, b, c, d]))"

definition hex_digit :: "nat \<Rightarrow> char" where
  "hex_digit n = ''0123456789abcdef'' ! n"

definition hexdigest :: "byte list \<Rightarrow> string" where
  "hexdigest bs =
     concat (map (\<lambda>b. [hex_digit (unat b div 16), hex_digit (unat b mod 16)]) bs)"

text \<open>\<^verbatim>\<open>content.encode()\<close>: the bytes of the string.\<close>

definition encode :: "string \<Rightarrow> byte list" where
  "encode s = map (\<lambda>c. word_of_nat (of_char c)) s"

definition md5_hexdigest :: "string \<Rightarrow> string" where
  "md5_hexdigest s = hexdigest (md5_digest (encode s))"

subsection \<open>The world and the callables\<close>

record world =
  wall_clock :: real

datatype outcome = Returns | Raises string

type_synonym 'x callable = "'x world_scheme \<Rightarrow> outcome \<times> 'x world_scheme"

subsection \<open>\<^verbatim>\<open>MigrationStatus\<close>, \<^verbatim>\<open>Migration\<close>, \<^verbatim>\<open>MigrationResult\<close>\<close>

datatype MigrationStatus = PENDING | APPLIED | FAILED | ROLLED_BACK

record 'x Migration =
  version :: string
  name :: string
  up_sql :: string
  down_sql :: string
  up_fn :: "'x callable option"
  down_fn :: "'x callable option"
  checksum :: string
  applied_at :: "real option"
  status :: MigrationStatus

text \<open>
  The dataclass constructor followed by \<^verbatim>\<open>__post_init__\<close>: an empty \<^verbatim>\<open>checksum\<close> is
  replaced by the first eight hex digits of the MD5 of \<^verbatim>\<open>up_sql + down_sql\<close>.
\<close>

definition Migration_init ::
  "string \<Rightarrow> string \<Rightarrow> string \<Rightarrow> string \<Rightarrow> 'x callable option \<Rightarrow> 'x callable option
     \<Rightarrow> string \<Rightarrow> real option \<Rightarrow> MigrationStatus \<Rightarrow> 'x Migration" where
  "Migration_init v n us ds uf df cs ts st =
     (let self = \<lparr>version = v, name = n, up_sql = us, down_sql = ds, up_fn = uf,
                   down_fn = df, checksum = cs, applied_at = ts, status = st\<rparr>
      in if checksum self = []
         then let content = up_sql self @ down_sql self
              in self\<lparr>checksum := take 8 (md5_hexdigest content)\<rparr>
         else self)"

text \<open>
  The fields of \<^verbatim>\<open>MigrationResult\<close>; \<^verbatim>\<open>version\<close> and \<^verbatim>\<open>name\<close> carry the prefix
  \<open>res_\<close> to keep them apart from the fields of \<^verbatim>\<open>Migration\<close>.
\<close>

record MigrationResult =
  res_version :: string
  res_name :: string
  success :: bool
  direction :: string
  duration_ms :: real
  error :: "string option"

subsection \<open>\<^verbatim>\<open>MigrationStore\<close>: the ledger\<close>

text \<open>
  The store's list of applied versions. Its lock serialises the two mutations and has
  no sequential effect; its own \<^verbatim>\<open>migrations\<close> dictionary is never read or written.
\<close>

record MigrationStore =
  applied :: "string list"

definition MigrationStore_init :: MigrationStore where
  "MigrationStore_init = \<lparr>applied = []\<rparr>"

definition get_applied :: "MigrationStore \<Rightarrow> string list" where
  "get_applied self = applied self"

definition mark_applied :: "string \<Rightarrow> MigrationStore \<Rightarrow> MigrationStore" where
  "mark_applied v self =
     (if v \<notin> set (applied self) then self\<lparr>applied := applied self @ [v]\<rparr> else self)"

definition mark_rolled_back :: "string \<Rightarrow> MigrationStore \<Rightarrow> MigrationStore" where
  "mark_rolled_back v self =
     (if v \<in> set (applied self) then self\<lparr>applied := remove1 v (applied self)\<rparr> else self)"

definition is_applied :: "string \<Rightarrow> MigrationStore \<Rightarrow> bool" where
  "is_applied v self \<longleftrightarrow> v \<in> set (applied self)"

subsection \<open>\<^verbatim>\<open>MigrationRunner\<close>: the executor\<close>

record 'x MigrationRunner =
  executor :: "string \<Rightarrow> 'x callable"

definition default_executor :: "string \<Rightarrow> 'x callable" where
  "default_executor sql w = (Returns, w)"

definition MigrationRunner_init :: "(string \<Rightarrow> 'x callable) option \<Rightarrow> 'x MigrationRunner" where
  "MigrationRunner_init ex =
     \<lparr>executor = (case ex of None \<Rightarrow> default_executor | Some e \<Rightarrow> e)\<rparr>"

text \<open>
  \<^verbatim>\<open>run_up\<close>: the procedure when there is one, else the payload when it is not empty,
  else nothing; whatever is raised inside the \<^verbatim>\<open>try\<close> becomes a failed result.
\<close>

definition run_up ::
  "'x MigrationRunner \<Rightarrow> 'x Migration \<Rightarrow> 'x world_scheme \<Rightarrow> MigrationResult \<times> 'x world_scheme" where
  "run_up self migration w =
     (let start = wall_clock w;
          (out, w') =
            (case up_fn migration of
               Some f \<Rightarrow> f w
             | None \<Rightarrow>
                 if up_sql migration \<noteq> [] then executor self (up_sql migration) w
                 else (Returns, w));
          duration = (wall_clock w' - start) * 1000
      in case out of
           Returns \<Rightarrow>
             (\<lparr>res_version = version migration, res_name = name migration, success = True,
               direction = ''up'', duration_ms = duration, error = None\<rparr>, w')
         | Raises e \<Rightarrow>
             (\<lparr>res_version = version migration, res_name = name migration, success = False,
               direction = ''up'', duration_ms = duration, error = Some e\<rparr>, w'))"

definition run_down ::
  "'x MigrationRunner \<Rightarrow> 'x Migration \<Rightarrow> 'x world_scheme \<Rightarrow> MigrationResult \<times> 'x world_scheme" where
  "run_down self migration w =
     (let start = wall_clock w;
          (out, w') =
            (case down_fn migration of
               Some f \<Rightarrow> f w
             | None \<Rightarrow>
                 if down_sql migration \<noteq> [] then executor self (down_sql migration) w
                 else (Returns, w));
          duration = (wall_clock w' - start) * 1000
      in case out of
           Returns \<Rightarrow>
             (\<lparr>res_version = version migration, res_name = name migration, success = True,
               direction = ''down'', duration_ms = duration, error = None\<rparr>, w')
         | Raises e \<Rightarrow>
             (\<lparr>res_version = version migration, res_name = name migration, success = False,
               direction = ''down'', duration_ms = duration, error = Some e\<rparr>, w'))"

subsection \<open>\<^verbatim>\<open>MigrationBuilder\<close>\<close>

record 'x MigrationBuilder =
  migration :: "'x Migration"

definition MigrationBuilder_init :: "string \<Rightarrow> string \<Rightarrow> 'x MigrationBuilder" where
  "MigrationBuilder_init v n =
     \<lparr>migration = Migration_init v n [] [] None None [] None PENDING\<rparr>"

definition builder_up :: "string \<Rightarrow> 'x MigrationBuilder \<Rightarrow> 'x MigrationBuilder" where
  "builder_up sql self = self\<lparr>migration := (migration self)\<lparr>up_sql := sql\<rparr>\<rparr>"

definition builder_down :: "string \<Rightarrow> 'x MigrationBuilder \<Rightarrow> 'x MigrationBuilder" where
  "builder_down sql self = self\<lparr>migration := (migration self)\<lparr>down_sql := sql\<rparr>\<rparr>"

definition builder_up_fn :: "'x callable \<Rightarrow> 'x MigrationBuilder \<Rightarrow> 'x MigrationBuilder" where
  "builder_up_fn fn self = self\<lparr>migration := (migration self)\<lparr>up_fn := Some fn\<rparr>\<rparr>"

definition builder_down_fn :: "'x callable \<Rightarrow> 'x MigrationBuilder \<Rightarrow> 'x MigrationBuilder" where
  "builder_down_fn fn self = self\<lparr>migration := (migration self)\<lparr>down_fn := Some fn\<rparr>\<rparr>"

definition build :: "'x MigrationBuilder \<Rightarrow> 'x Migration" where
  "build self = migration self"

subsection \<open>\<^verbatim>\<open>Migrator\<close>: the orchestrator\<close>

text \<open>
  The catalog \<^verbatim>\<open>self.migrations\<close> is a dictionary from version to \<^verbatim>\<open>Migration\<close> object:
  an association list, written with \<^const>\<open>AList.update\<close> (a new key goes to the end,
  an old key keeps its place, as in a Python \<^verbatim>\<open>dict\<close>). The catalog holds the objects
  themselves: a \<^verbatim>\<open>Migration\<close> is identified with the key it is registered under, and
  the loops read it and write its \<^verbatim>\<open>status\<close> and \<^verbatim>\<open>applied_at\<close> through the catalog.

  A hook handler gets \<^verbatim>\<open>None\<close> (before a batch) or the list of results (after it).
\<close>

type_synonym 'x catalog = "(string \<times> 'x Migration) list"

type_synonym 'x handler = "MigrationResult list option \<Rightarrow> 'x callable"

record 'x Migrator =
  store :: MigrationStore
  runner :: "'x MigrationRunner"
  migrations :: "'x catalog"
  hooks :: "string \<rightharpoonup> 'x handler list"

definition Migrator_init ::
  "MigrationStore option \<Rightarrow> 'x MigrationRunner option \<Rightarrow> 'x Migrator" where
  "Migrator_init st rn =
     \<lparr>store = (case st of None \<Rightarrow> MigrationStore_init | Some s \<Rightarrow> s),
      runner = (case rn of None \<Rightarrow> MigrationRunner_init None | Some r \<Rightarrow> r),
      migrations = [],
      hooks = [''before_migrate'' \<mapsto> [], ''after_migrate'' \<mapsto> [],
               ''before_rollback'' \<mapsto> [], ''after_rollback'' \<mapsto> []]\<rparr>"

definition add_hook :: "string \<Rightarrow> 'x handler \<Rightarrow> 'x Migrator \<Rightarrow> 'x Migrator" where
  "add_hook event handler self =
     (case hooks self event of
        Some hs \<Rightarrow> self\<lparr>hooks := (hooks self)(event \<mapsto> hs @ [handler])\<rparr>
      | None \<Rightarrow> self)"

text \<open>
  \<^verbatim>\<open>_emit\<close>: every handler of the event runs, in registration order; what a handler
  raises is caught (and logged), and the next handler runs.
\<close>

fun run_handlers ::
  "'x handler list \<Rightarrow> MigrationResult list option \<Rightarrow> 'x world_scheme \<Rightarrow> 'x world_scheme" where
  "run_handlers [] d w = w"
| "run_handlers (handler # hs) d w =
     (case handler d w of
        (Returns, w') \<Rightarrow> run_handlers hs d w'
      | (Raises e, w') \<Rightarrow> run_handlers hs d w')"

definition emit ::
  "'x Migrator \<Rightarrow> string \<Rightarrow> MigrationResult list option \<Rightarrow> 'x world_scheme \<Rightarrow> 'x world_scheme" where
  "emit self event d w =
     run_handlers (case hooks self event of None \<Rightarrow> [] | Some hs \<Rightarrow> hs) d w"

definition register :: "'x Migration \<Rightarrow> 'x Migrator \<Rightarrow> 'x Migrator" where
  "register m self =
     self\<lparr>migrations := AList.update (version m) m (migrations self)\<rparr>"

definition create :: "'x Migrator \<Rightarrow> string \<Rightarrow> string \<Rightarrow> 'x MigrationBuilder" where
  "create self v n = MigrationBuilder_init v n"

text \<open>
  \<^verbatim>\<open>pending\<close>: the catalog keys that are not in the ledger, ascending, and the objects
  under them.
\<close>

definition pending_versions :: "'x Migrator \<Rightarrow> string list" where
  "pending_versions self =
     (let applied_set = set (get_applied (store self))
      in filter (\<lambda>v. v \<notin> applied_set) (sort (map fst (migrations self))))"

definition pending :: "'x Migrator \<Rightarrow> 'x Migration list" where
  "pending self = map (\<lambda>v. the (map_of (migrations self) v)) (pending_versions self)"

definition migrator_applied :: "'x Migrator \<Rightarrow> 'x Migration list" where
  "migrator_applied self =
     (let applied_versions = get_applied (store self)
      in map (\<lambda>v. the (map_of (migrations self) v))
           (filter (\<lambda>v. map_of (migrations self) v \<noteq> None) applied_versions))"

text \<open>
  \<^verbatim>\<open>if target and migration.version > target: break\<close>: a target that is \<^verbatim>\<open>None\<close> or
  the empty string is falsy and limits nothing.
\<close>

definition beyond_target :: "string option \<Rightarrow> string \<Rightarrow> bool" where
  "beyond_target target v =
     (case target of None \<Rightarrow> False | Some t \<Rightarrow> t \<noteq> [] \<and> t < v)"

text \<open>
  The loop of \<^verbatim>\<open>migrate\<close> over the pending migrations, given by their keys. It returns
  the results appended, the migrator and the world.
\<close>

fun migrate_loop ::
  "string option \<Rightarrow> string list \<Rightarrow> 'x Migrator \<Rightarrow> 'x world_scheme
     \<Rightarrow> MigrationResult list \<times> 'x Migrator \<times> 'x world_scheme" where
  "migrate_loop target [] self w = ([], self, w)"
| "migrate_loop target (k # ks) self w =
     (let m = the (map_of (migrations self) k) in
      if beyond_target target (version m) then ([], self, w)
      else
        let (result, w1) = run_up (runner self) m w in
        if success result then
          let self1 = self\<lparr>store := mark_applied (version m) (store self),
                           migrations :=
                             AList.map_entry k
                               (\<lambda>m. m\<lparr>status := APPLIED, applied_at := Some (wall_clock w1)\<rparr>)
                               (migrations self)\<rparr>;
              (results, self2, w2) = migrate_loop target ks self1 w1
          in (result # results, self2, w2)
        else
          ([result],
           self\<lparr>migrations := AList.map_entry k (\<lambda>m. m\<lparr>status := FAILED\<rparr>) (migrations self)\<rparr>,
           w1))"

definition migrate ::
  "string option \<Rightarrow> 'x Migrator \<Rightarrow> 'x world_scheme
     \<Rightarrow> MigrationResult list \<times> 'x Migrator \<times> 'x world_scheme" where
  "migrate target self w =
     (let w0 = emit self ''before_migrate'' None w;
          (results, self1, w1) = migrate_loop target (pending_versions self) self w0;
          w2 = emit self1 ''after_migrate'' (Some results) w1
      in (results, self1, w2))"

text \<open>
  The loop of \<^verbatim>\<open>rollback\<close> over \<^verbatim>\<open>enumerate(applied)\<close>: the index \<open>i\<close> counts every
  walked entry, also one that is not in the catalog.
\<close>

fun rollback_loop ::
  "int \<Rightarrow> (nat \<times> string) list \<Rightarrow> 'x Migrator \<Rightarrow> 'x world_scheme
     \<Rightarrow> MigrationResult list \<times> 'x Migrator \<times> 'x world_scheme" where
  "rollback_loop steps [] self w = ([], self, w)"
| "rollback_loop steps ((i, v) # rest) self w =
     (if int i \<ge> steps then ([], self, w)
      else
        case map_of (migrations self) v of
          None \<Rightarrow> rollback_loop steps rest self w
        | Some m \<Rightarrow>
            let (result, w1) = run_down (runner self) m w in
            if success result then
              let self1 = self\<lparr>store := mark_rolled_back v (store self),
                               migrations :=
                                 AList.map_entry v (\<lambda>m. m\<lparr>status := ROLLED_BACK\<rparr>)
                                   (migrations self)\<rparr>;
                  (results, self2, w2) = rollback_loop steps rest self1 w1
              in (result # results, self2, w2)
            else
              ([result],
               self\<lparr>migrations := AList.map_entry v (\<lambda>m. m\<lparr>status := FAILED\<rparr>) (migrations self)\<rparr>,
               w1))"

definition rollback ::
  "int \<Rightarrow> 'x Migrator \<Rightarrow> 'x world_scheme
     \<Rightarrow> MigrationResult list \<times> 'x Migrator \<times> 'x world_scheme" where
  "rollback steps self w =
     (let w0 = emit self ''before_rollback'' None w;
          walk = rev (get_applied (store self));
          (results, self1, w1) = rollback_loop steps (List.enumerate 0 walk) self w0;
          w2 = emit self1 ''after_rollback'' (Some results) w1
      in (results, self1, w2))"

text \<open>
  The loop of \<^verbatim>\<open>rollback_to\<close>: no hook, no status written, and no \<^verbatim>\<open>break\<close> after a
  failed result.
\<close>

fun rollback_to_loop ::
  "string \<Rightarrow> string list \<Rightarrow> 'x Migrator \<Rightarrow> 'x world_scheme
     \<Rightarrow> MigrationResult list \<times> 'x Migrator \<times> 'x world_scheme" where
  "rollback_to_loop target [] self w = ([], self, w)"
| "rollback_to_loop target (v # rest) self w =
     (if v \<le> target then ([], self, w)
      else
        case map_of (migrations self) v of
          None \<Rightarrow> rollback_to_loop target rest self w
        | Some m \<Rightarrow>
            let (result, w1) = run_down (runner self) m w;
                self1 = (if success result
                         then self\<lparr>store := mark_rolled_back v (store self)\<rparr>
                         else self);
                (results, self2, w2) = rollback_to_loop target rest self1 w1
            in (result # results, self2, w2))"

definition rollback_to ::
  "string \<Rightarrow> 'x Migrator \<Rightarrow> 'x world_scheme
     \<Rightarrow> MigrationResult list \<times> 'x Migrator \<times> 'x world_scheme" where
  "rollback_to target self w =
     (let walk = rev (get_applied (store self))
      in rollback_to_loop target walk self w)"

text \<open>
  \<^verbatim>\<open>generate\<close>: \<open>timestamp\<close> is the string that
  \<^verbatim>\<open>datetime.now().strftime("%Y%m%d%H%M%S")\<close> returned. \<^verbatim>\<open>lower\<close> is written for the ASCII
  letters: the other letters Python lowercases are not in \<^verbatim>\<open>[a-z0-9]\<close> before or after,
  and the pattern replaces them all the same. \<^verbatim>\<open>re.sub\<close> replaces every maximal run of
  characters outside \<^verbatim>\<open>[a-z0-9]\<close> by one underscore, and \<^verbatim>\<open>strip('_')\<close> removes the
  underscores at both ends.
\<close>

definition lower_char :: "char \<Rightarrow> char" where
  "lower_char c =
     (if CHR ''A'' \<le> c \<and> c \<le> CHR ''Z'' then char_of (of_char c + (32::nat)) else c)"

definition lower :: "string \<Rightarrow> string" where
  "lower s = map lower_char s"

definition in_class :: "char \<Rightarrow> bool" where
  "in_class c \<longleftrightarrow> (CHR ''a'' \<le> c \<and> c \<le> CHR ''z'') \<or> (CHR ''0'' \<le> c \<and> c \<le> CHR ''9'')"

function re_sub :: "string \<Rightarrow> string" where
  "re_sub [] = []"
| "re_sub (c # cs) =
     (if in_class c then c # re_sub cs
      else CHR ''_'' # re_sub (dropWhile (\<lambda>c. \<not> in_class c) cs))"
  by pat_completeness auto
termination
  by (relation "measure length") (auto simp: length_dropWhile_le less_Suc_eq_le)

definition strip :: "char \<Rightarrow> string \<Rightarrow> string" where
  "strip x s = rev (dropWhile (\<lambda>c. c = x) (rev (dropWhile (\<lambda>c. c = x) s)))"

definition slug_of :: "string \<Rightarrow> string" where
  "slug_of n = strip CHR ''_'' (re_sub (lower n))"

definition generate :: "string \<Rightarrow> string \<Rightarrow> string" where
  "generate timestamp n = timestamp @ ''_'' @ slug_of n"

text \<open>
  A catalog as \<^verbatim>\<open>register\<close> builds it: no key twice, every object under its own
  version.
\<close>

definition registered :: "'x catalog \<Rightarrow> bool" where
  "registered cat \<longleftrightarrow> distinct (map fst cat) \<and> list_all (\<lambda>(k, m). version m = k) cat"

section \<open>Example migrators\<close>

text \<open>The three migrations of \<^verbatim>\<open>example_usage\<close>, with shorter payloads, and variants.\<close>

definition w0 :: world where
  "w0 = \<lparr>wall_clock = 0\<rparr>"

definition boom :: "unit callable" where
  "boom w = (Raises ''boom'', w)"

definition m001 :: "unit Migration" where
  "m001 = build (builder_down ''DROP TABLE users''
            (builder_up ''CREATE TABLE users (id SERIAL PRIMARY KEY)''
              (MigrationBuilder_init ''001'' ''create_users_table'')))"

definition m002 :: "unit Migration" where
  "m002 = build (builder_down ''ALTER TABLE users DROP COLUMN age''
            (builder_up ''ALTER TABLE users ADD COLUMN age INTEGER''
              (MigrationBuilder_init ''002'' ''add_age_to_users'')))"

definition m003 :: "unit Migration" where
  "m003 = build (builder_down ''DROP TABLE posts''
            (builder_up ''CREATE TABLE posts (id SERIAL PRIMARY KEY)''
              (MigrationBuilder_init ''003'' ''create_posts_table'')))"

definition m002_up_raises :: "unit Migration" where
  "m002_up_raises = build (builder_up_fn boom (MigrationBuilder_init ''002'' ''add_age_to_users''))"

definition migrator_up_raises :: "unit Migrator" where
  "migrator_up_raises =
     register m002_up_raises (register m001 (register m003 (Migrator_init None None)))"

definition ex_store :: MigrationStore where
  "ex_store = \<lparr>applied = [''001'']\<rparr>"

definition migrator3 :: "unit Migrator" where
  "migrator3 = register m002 (register m001 (register m003 (Migrator_init None None)))"

text \<open>The same migrator after \<^verbatim>\<open>migrate()\<close> has applied all three.\<close>

definition migrator3_applied :: "unit Migrator" where
  "migrator3_applied = fst (snd (migrate None migrator3 w0))"

text \<open>Migration 003 with a backward procedure that raises, all three applied.\<close>

definition m003_down_raises :: "unit Migration" where
  "m003_down_raises =
     build (builder_down_fn boom
       (builder_up ''CREATE TABLE posts (id SERIAL PRIMARY KEY)''
         (MigrationBuilder_init ''003'' ''create_posts_table'')))"

definition migrator_down_raises :: "unit Migrator" where
  "migrator_down_raises =
     fst (snd (migrate None
       (register m002 (register m001 (register m003_down_raises (Migrator_init None None))))
       w0))"

text \<open>A ledger whose last applied version, 999, is not in the catalog.\<close>

definition migrator_orphan :: "unit Migrator" where
  "migrator_orphan =
     register m001 (Migrator_init (Some \<lparr>applied = [''001'', ''999'']\<rparr>) None)"

text \<open>A handler that moves the clock and raises, registered for \<^verbatim>\<open>before_migrate\<close>.\<close>

definition raising_hook :: "unit handler" where
  "raising_hook d w = (Raises ''hook failed'', w\<lparr>wall_clock := wall_clock w + 1\<rparr>)"

definition migrator_hooked :: "unit Migrator" where
  "migrator_hooked = add_hook ''before_migrate'' raising_hook migrator3"

section \<open>Properties\<close>

subsection \<open>Evaluation and auxiliary facts\<close>

lemmas example_defs =
  w0_def boom_def m001_def m002_def m003_def m002_up_raises_def migrator_up_raises_def
  migrator3_def m003_down_raises_def migrator_orphan_def raising_hook_def
  migrator_hooked_def add_hook_def
  Migrator_init_def register_def build_def builder_up_def builder_down_def builder_up_fn_def
  builder_down_fn_def MigrationBuilder_init_def Migration_init_def MigrationRunner_init_def
  default_executor_def MigrationStore_init_def

lemmas run_defs =
  migrate_def rollback_def rollback_to_def emit_def pending_versions_def get_applied_def
  run_up_def run_down_def mark_applied_def mark_rolled_back_def beyond_target_def Let_def

lemma migrator3_applied_eval:
  "migrator3_applied =
     migrator3
       \<lparr>store := \<lparr>applied = [''001'', ''002'', ''003'']\<rparr>,
        migrations :=
          [(''003'', m003\<lparr>applied_at := Some 0, status := APPLIED\<rparr>),
           (''001'', m001\<lparr>applied_at := Some 0, status := APPLIED\<rparr>),
           (''002'', m002\<lparr>applied_at := Some 0, status := APPLIED\<rparr>)]\<rparr>"
  by (simp add: migrator3_applied_def example_defs run_defs)

lemma migrator_down_raises_eval:
  "migrator_down_raises =
     migrator3
       \<lparr>store := \<lparr>applied = [''001'', ''002'', ''003'']\<rparr>,
        migrations :=
          [(''003'', m003_down_raises\<lparr>applied_at := Some 0, status := APPLIED\<rparr>),
           (''001'', m001\<lparr>applied_at := Some 0, status := APPLIED\<rparr>),
           (''002'', m002\<lparr>applied_at := Some 0, status := APPLIED\<rparr>)]\<rparr>"
  by (simp add: migrator_down_raises_def example_defs run_defs)

lemma run_up_version [simp]: "res_version (fst (run_up r m w)) = version m"
  by (simp add: run_up_def Let_def split: prod.splits outcome.splits)

lemma run_down_version [simp]: "res_version (fst (run_down r m w)) = version m"
  by (simp add: run_down_def Let_def split: prod.splits outcome.splits)

lemma map_fst_map_entry [simp]: "map fst (AList.map_entry k f al) = map fst al"
  by (induction al) auto

lemma map_of_map_entry_other:
  "k' \<noteq> k \<Longrightarrow> map_of (AList.map_entry k f al) k' = map_of al k'"
  by (simp add: map_of_map_entry)

lemma registered_lookup:
  "registered cat \<Longrightarrow> map_of cat k = Some m \<Longrightarrow> version m = k"
  by (auto simp: registered_def list_all_iff dest!: map_of_SomeD)

lemma registered_in_keys:
  "registered cat \<Longrightarrow> k \<in> set (map fst cat) \<Longrightarrow> version (the (map_of cat k)) = k"
  by (metis registered_lookup domIff dom_map_of_conv_image_fst option.collapse set_map)

lemma registered_map_entry:
  "registered cat \<Longrightarrow> (\<And>m. version (f m) = version m) \<Longrightarrow> registered (AList.map_entry k f cat)"
  unfolding registered_def
  by (induction cat) (auto simp: list_all_iff)

lemma registered_Nil: "registered []"
  by (simp add: registered_def)

lemma registered_iff:
  "registered cat \<longleftrightarrow>
     distinct (map fst cat) \<and> (\<forall>k m. map_of cat k = Some m \<longrightarrow> version m = k)"
  unfolding registered_def list_all_iff
  by (auto dest: map_of_SomeD)

lemma registered_update:
  "registered cat \<Longrightarrow> registered (AList.update (version m) m cat)"
  by (simp add: registered_iff AList.distinct_update AList.update_conv')

lemma migrate_loop_Cons_cases:
  assumes "migrate_loop target (k # ks) self w = (res, self', w')"
  obtains
    (stop) "beyond_target target (version (the (map_of (migrations self) k)))"
      "res = []" "self' = self" "w' = w"
  | (fail) r w1 where
      "\<not> beyond_target target (version (the (map_of (migrations self) k)))"
      "run_up (runner self) (the (map_of (migrations self) k)) w = (r, w1)"
      "\<not> success r" "res = [r]"
      "self' = self\<lparr>migrations :=
                 AList.map_entry k (\<lambda>m. m\<lparr>status := FAILED\<rparr>) (migrations self)\<rparr>"
      "w' = w1"
  | (ok) r w1 rs where
      "\<not> beyond_target target (version (the (map_of (migrations self) k)))"
      "run_up (runner self) (the (map_of (migrations self) k)) w = (r, w1)"
      "success r" "res = r # rs"
      "migrate_loop target ks
         (self\<lparr>store := mark_applied (version (the (map_of (migrations self) k))) (store self),
               migrations :=
                 AList.map_entry k
                   (\<lambda>m. m\<lparr>status := APPLIED, applied_at := Some (wall_clock w1)\<rparr>)
                   (migrations self)\<rparr>) w1 = (rs, self', w')"
  using assms
  by (auto simp: Let_def split: prod.splits if_splits)

lemma migrate_loop_frame:
  assumes "migrate_loop target ks self w = (res, self', w')"
  shows "runner self' = runner self \<and> hooks self' = hooks self
         \<and> map fst (migrations self') = map fst (migrations self)
         \<and> length res \<le> length ks \<and> list_all success (butlast res)"
  using assms
proof (induction ks arbitrary: self w res self' w')
  case Nil
  then show ?case by simp
next
  case (Cons k ks)
  from Cons.prems show ?case
  proof (cases rule: migrate_loop_Cons_cases)
    case stop
    then show ?thesis by simp
  next
    case (fail r w1)
    then show ?thesis by simp
  next
    case (ok r w1 rs)
    from Cons.IH [OF ok(5)] ok(3,4) show ?thesis
      by (cases rs) auto
  qed
qed

lemma migrate_loop_versions:
  assumes "registered (migrations self)"
    and "set ks \<subseteq> set (map fst (migrations self))"
    and "migrate_loop target ks self w = (res, self', w')"
  shows "registered (migrations self')
         \<and> map res_version res = take (length res) ks
         \<and> (\<forall>k\<in>set (take (length res) ks). \<not> beyond_target target k)
         \<and> (length res < length ks \<and> list_all success res
              \<longrightarrow> beyond_target target (ks ! length res))"
  using assms
proof (induction ks arbitrary: self w res self' w')
  case Nil
  then show ?case by simp
next
  case (Cons k ks)
  have vk: "version (the (map_of (migrations self) k)) = k"
    using Cons.prems(1,2) by (simp add: registered_in_keys)
  from Cons.prems(3) show ?case
  proof (cases rule: migrate_loop_Cons_cases)
    case stop
    with vk Cons.prems(1) show ?thesis by simp
  next
    case (fail r w1)
    have "res_version r = k"
      using run_up_version [of "runner self" "the (map_of (migrations self) k)" w] fail(2) vk
      by simp
    with fail vk Cons.prems(1) show ?thesis
      by (simp add: registered_map_entry)
  next
    case (ok r w1 rs)
    have rk: "res_version r = k"
      using run_up_version [of "runner self" "the (map_of (migrations self) k)" w] ok(2) vk
      by simp
    let ?self1 = "self\<lparr>store := mark_applied (version (the (map_of (migrations self) k))) (store self),
               migrations :=
                 AList.map_entry k
                   (\<lambda>m. m\<lparr>status := APPLIED, applied_at := Some (wall_clock w1)\<rparr>)
                   (migrations self)\<rparr>"
    have r1: "registered (migrations ?self1)"
      using Cons.prems(1) by (simp add: registered_map_entry)
    have k1: "set ks \<subseteq> set (map fst (migrations ?self1))"
      using Cons.prems(2) by simp
    from Cons.IH [OF r1 k1 ok(5)] ok(1,3,4) rk vk show ?thesis
      by auto
  qed
qed

lemma migrate_loop_ledger:
  assumes "registered (migrations self)"
    and "set ks \<subseteq> set (map fst (migrations self))"
    and "distinct ks"
    and "set ks \<inter> set (applied (store self)) = {}"
    and "migrate_loop target ks self w = (res, self', w')"
  shows "applied (store self') = applied (store self) @ map res_version (filter success res)"
  using assms
proof (induction ks arbitrary: self w res self' w')
  case Nil
  then show ?case by simp
next
  case (Cons k ks)
  have vk: "version (the (map_of (migrations self) k)) = k"
    using Cons.prems(1,2) by (simp add: registered_in_keys)
  from Cons.prems(5) show ?case
  proof (cases rule: migrate_loop_Cons_cases)
    case stop
    then show ?thesis by simp
  next
    case (fail r w1)
    then show ?thesis by simp
  next
    case (ok r w1 rs)
    have rk: "res_version r = k"
      using run_up_version [of "runner self" "the (map_of (migrations self) k)" w] ok(2) vk
      by simp
    let ?self1 = "self\<lparr>store := mark_applied (version (the (map_of (migrations self) k))) (store self),
               migrations :=
                 AList.map_entry k
                   (\<lambda>m. m\<lparr>status := APPLIED, applied_at := Some (wall_clock w1)\<rparr>)
                   (migrations self)\<rparr>"
    have r1: "registered (migrations ?self1)"
      using Cons.prems(1) by (simp add: registered_map_entry)
    have k1: "set ks \<subseteq> set (map fst (migrations ?self1))"
      using Cons.prems(2) by simp
    have d1: "distinct ks"
      using Cons.prems(3) by simp
    have a1: "applied (store ?self1) = applied (store self) @ [k]"
      using Cons.prems(4) vk by (simp add: mark_applied_def)
    have i1: "set ks \<inter> set (applied (store ?self1)) = {}"
      unfolding a1 using Cons.prems(3,4) by auto
    from Cons.IH [OF r1 k1 d1 i1 ok(5)] a1 ok(3,4) rk show ?thesis
      by simp
  qed
qed

lemma migrate_loop_catalog:
  assumes "migrate_loop target ks self w = (res, self', w')"
    and "k' \<notin> set (take (length res) ks)"
  shows "map_of (migrations self') k' = map_of (migrations self) k'"
  using assms
proof (induction ks arbitrary: self w res self' w')
  case Nil
  then show ?case by simp
next
  case (Cons k ks)
  from Cons.prems(1) show ?case
  proof (cases rule: migrate_loop_Cons_cases)
    case stop
    then show ?thesis by simp
  next
    case (fail r w1)
    with Cons.prems(2) show ?thesis by (simp add: map_of_map_entry)
  next
    case (ok r w1 rs)
    from Cons.prems(2) ok(4) have "k' \<noteq> k" "k' \<notin> set (take (length rs) ks)"
      by auto
    with Cons.IH [OF ok(5)] show ?thesis
      by (simp add: map_of_map_entry)
  qed
qed

lemma migrate_loop_status:
  assumes "set ks \<subseteq> set (map fst (migrations self))"
    and "distinct ks"
    and "migrate_loop target ks self w = (res, self', w')"
    and "i < length res"
  shows "map_option status (map_of (migrations self') (ks ! i))
           = Some (if success (res ! i) then APPLIED else FAILED)"
  using assms
proof (induction ks arbitrary: self w res self' w' i)
  case Nil
  then show ?case by simp
next
  case (Cons k ks)
  from Cons.prems(1) obtain m where m: "map_of (migrations self) k = Some m"
    by (metis domD dom_map_of_conv_image_fst list.set_intros(1) set_map subsetD)
  from Cons.prems(3) show ?case
  proof (cases rule: migrate_loop_Cons_cases)
    case stop
    with Cons.prems(4) show ?thesis by simp
  next
    case (fail r w1)
    with Cons.prems(4) m show ?thesis by (simp add: map_of_map_entry)
  next
    case (ok r w1 rs)
    let ?self1 = "self\<lparr>store := mark_applied (version (the (map_of (migrations self) k))) (store self),
               migrations :=
                 AList.map_entry k
                   (\<lambda>m. m\<lparr>status := APPLIED, applied_at := Some (wall_clock w1)\<rparr>)
                   (migrations self)\<rparr>"
    have k1: "set ks \<subseteq> set (map fst (migrations ?self1))"
      using Cons.prems(1) by simp
    have d1: "distinct ks" and kn: "k \<notin> set ks"
      using Cons.prems(2) by simp_all
    show ?thesis
    proof (cases i)
      case 0
      have "k \<notin> set (take (length rs) ks)"
        using kn by (meson in_set_takeD)
      from migrate_loop_catalog [OF ok(5) this] m ok(3,4) 0 show ?thesis
        by (simp add: map_of_map_entry)
    next
      case (Suc j)
      with Cons.prems(4) ok(4) have "j < length rs" by simp
      from Cons.IH [OF k1 d1 ok(5) this] Suc ok(4) show ?thesis by simp
    qed
  qed
qed

lemma pending_versions_props:
  assumes "registered (migrations self)"
  shows "set (pending_versions self) \<subseteq> set (map fst (migrations self))"
    and "distinct (pending_versions self)"
    and "sorted (pending_versions self)"
    and "set (pending_versions self) \<inter> set (applied (store self)) = {}"
  using assms
  by (auto simp: pending_versions_def get_applied_def registered_def sorted_wrt_filter)

lemma migrate_unfold:
  assumes "migrate target self w = (results, self', w')"
  shows "migrate_loop target (pending_versions self) self (emit self ''before_migrate'' None w)
           = (results, self', snd (snd (migrate_loop target (pending_versions self) self
                 (emit self ''before_migrate'' None w))))"
  using assms
  by (auto simp: migrate_def Let_def split: prod.splits)

lemma beyond_target_Some:
  "t \<noteq> [] \<Longrightarrow> beyond_target (Some t) v \<longleftrightarrow> t < v"
  by (simp add: beyond_target_def)

lemma filter_le_prefix:
  fixes ks :: "string list"
  assumes "n \<le> length ks" and "\<forall>k\<in>set (take n ks). k \<le> t"
  shows "take n (filter (\<lambda>v. v \<le> t) ks) = take n ks"
proof -
  have "filter (\<lambda>v. v \<le> t) ks
          = filter (\<lambda>v. v \<le> t) (take n ks) @ filter (\<lambda>v. v \<le> t) (drop n ks)"
    by (metis append_take_drop_id filter_append)
  also have "filter (\<lambda>v. v \<le> t) (take n ks) = take n ks"
    using assms(2) by (simp add: filter_id_conv)
  finally show ?thesis using assms(1) by simp
qed

lemma filter_le_sorted_stop:
  fixes ks :: "string list"
  assumes "sorted ks" and "n < length ks" and "t < ks ! n"
    and "\<forall>k\<in>set (take n ks). k \<le> t"
  shows "filter (\<lambda>v. v \<le> t) ks = take n ks"
proof -
  have "\<forall>k\<in>set (drop n ks). \<not> k \<le> t"
  proof
    fix k assume "k \<in> set (drop n ks)"
    then obtain j where j: "j < length (drop n ks)" "k = drop n ks ! j"
      by (metis in_set_conv_nth)
    then have "k = ks ! (n + j)" "n + j < length ks" by auto
    with assms(1) have "ks ! n \<le> k"
      by (simp add: sorted_nth_mono)
    with assms(3) show "\<not> k \<le> t" by auto
  qed
  then have "filter (\<lambda>v. v \<le> t) (drop n ks) = []"
    by (simp add: filter_empty_conv)
  moreover have "filter (\<lambda>v. v \<le> t) (take n ks) = take n ks"
    using assms(4) by (simp add: filter_id_conv)
  moreover have "filter (\<lambda>v. v \<le> t) ks
          = filter (\<lambda>v. v \<le> t) (take n ks) @ filter (\<lambda>v. v \<le> t) (drop n ks)"
    by (metis append_take_drop_id filter_append)
  ultimately show ?thesis by simp
qed

lemma mark_rolled_back_remove1:
  "mark_rolled_back v s = s\<lparr>applied := remove1 v (applied s)\<rparr>"
  by (simp add: mark_rolled_back_def remove1_idem)

lemma rollback_loop_Cons_cases:
  assumes "rollback_loop steps ((i, v) # rest) self w = (res, self', w')"
  obtains
    (stop) "steps \<le> int i" "res = []" "self' = self" "w' = w"
  | (skip) "int i < steps" "map_of (migrations self) v = None"
      "rollback_loop steps rest self w = (res, self', w')"
  | (fail) m r w1 where "int i < steps" "map_of (migrations self) v = Some m"
      "run_down (runner self) m w = (r, w1)" "\<not> success r" "res = [r]"
      "self' = self\<lparr>migrations :=
                 AList.map_entry v (\<lambda>m. m\<lparr>status := FAILED\<rparr>) (migrations self)\<rparr>"
      "w' = w1"
  | (ok) m r w1 rs where "int i < steps" "map_of (migrations self) v = Some m"
      "run_down (runner self) m w = (r, w1)" "success r" "res = r # rs"
      "rollback_loop steps rest
         (self\<lparr>store := mark_rolled_back v (store self),
               migrations :=
                 AList.map_entry v (\<lambda>m. m\<lparr>status := ROLLED_BACK\<rparr>) (migrations self)\<rparr>) w1
         = (rs, self', w')"
  using assms
  by (auto simp: Let_def split: prod.splits if_splits option.splits)

lemma rollback_to_loop_Cons_cases:
  assumes "rollback_to_loop target (v # rest) self w = (res, self', w')"
  obtains
    (stop) "v \<le> target" "res = []" "self' = self" "w' = w"
  | (skip) "\<not> v \<le> target" "map_of (migrations self) v = None"
      "rollback_to_loop target rest self w = (res, self', w')"
  | (run) m r w1 rs where "\<not> v \<le> target" "map_of (migrations self) v = Some m"
      "run_down (runner self) m w = (r, w1)" "res = r # rs"
      "rollback_to_loop target rest
         (if success r then self\<lparr>store := mark_rolled_back v (store self)\<rparr> else self) w1
         = (rs, self', w')"
  using assms
  by (auto simp: Let_def split: prod.splits if_splits option.splits)

lemma take_steps_Cons:
  assumes "int i < steps"
  shows "take (nat (steps - int i)) (v # vs) = v # take (nat (steps - int (Suc i))) vs"
proof -
  from assms have "nat (steps - int i) = Suc (nat (steps - int (Suc i)))"
    by simp
  then show ?thesis by simp
qed

lemma rollback_loop_spec:
  assumes "registered (migrations self)"
    and "rollback_loop steps (List.enumerate i vs) self w = (res, self', w')"
  shows "registered (migrations self')
     \<and> map fst (migrations self') = map fst (migrations self)
     \<and> runner self' = runner self \<and> hooks self' = hooks self
     \<and> list_all success (butlast res)
     \<and> map res_version res
         = take (length res)
             (filter (\<lambda>v. map_of (migrations self) v \<noteq> None) (take (nat (steps - int i)) vs))
     \<and> (list_all success res \<longrightarrow>
          map res_version res
            = filter (\<lambda>v. map_of (migrations self) v \<noteq> None) (take (nat (steps - int i)) vs))
     \<and> applied (store self')
         = fold remove1 (map res_version (filter success res)) (applied (store self))"
  using assms
proof (induction vs arbitrary: i self w res self' w')
  case Nil
  then show ?case by simp
next
  case (Cons v vs)
  let ?P = "\<lambda>v. map_of (migrations self) v \<noteq> None"
  from Cons.prems(2)
  have loop: "rollback_loop steps ((i, v) # List.enumerate (Suc i) vs) self w = (res, self', w')"
    by (simp add: enumerate_simps)
  from loop show ?case
  proof (cases rule: rollback_loop_Cons_cases)
    case stop
    with Cons.prems(1) show ?thesis by simp
  next
    case skip
    have eq: "filter ?P (take (nat (steps - int i)) (v # vs))
                = filter ?P (take (nat (steps - int (Suc i))) vs)"
      using skip(1,2) by (simp add: take_steps_Cons)
    from Cons.IH [OF Cons.prems(1) skip(3)] show ?thesis
      unfolding eq by blast
  next
    case (fail m r w1)
    have rv: "res_version r = v"
      using run_down_version [of "runner self" m w] fail(2,3) registered_lookup [OF Cons.prems(1)]
      by simp
    have eq: "filter ?P (take (nat (steps - int i)) (v # vs))
                = v # filter ?P (take (nat (steps - int (Suc i))) vs)"
      using fail(1,2) by (simp add: take_steps_Cons)
    from fail(4,5,6) rv Cons.prems(1) show ?thesis
      unfolding eq by (simp add: registered_map_entry)
  next
    case (ok m r w1 rs)
    have rv: "res_version r = v"
      using run_down_version [of "runner self" m w] ok(2,3) registered_lookup [OF Cons.prems(1)]
      by simp
    let ?self1 = "self\<lparr>store := mark_rolled_back v (store self),
               migrations :=
                 AList.map_entry v (\<lambda>m. m\<lparr>status := ROLLED_BACK\<rparr>) (migrations self)\<rparr>"
    have r1: "registered (migrations ?self1)"
      using Cons.prems(1) by (simp add: registered_map_entry)
    have same: "(\<lambda>x. map_of (migrations ?self1) x \<noteq> None) = ?P"
      by (auto simp: map_of_map_entry split: option.splits)
    have eq: "filter ?P (take (nat (steps - int i)) (v # vs))
                = v # filter ?P (take (nat (steps - int (Suc i))) vs)"
      using ok(1,2) by (simp add: take_steps_Cons)
    note ih = Cons.IH [OF r1 ok(6), unfolded same]
    let ?F = "filter ?P (take (nat (steps - int (Suc i))) vs)"
    have a: "registered (migrations self')
        \<and> map fst (migrations self') = map fst (migrations self)
        \<and> runner self' = runner self \<and> hooks self' = hooks self"
      using ih by simp
    have ih_b: "list_all success (butlast rs)"
      and ih_c: "map res_version rs = take (length rs) ?F"
      and ih_d: "list_all success rs \<longrightarrow> map res_version rs = ?F"
      and ih_e: "applied (store self')
          = fold remove1 (map res_version (filter success rs)) (applied (store ?self1))"
      using ih by blast+
    have b: "list_all success (butlast res)"
      using ih_b ok(4,5) by (cases rs) simp_all
    have c: "map res_version res = take (length res) (v # ?F)"
      using ih_c ok(5) rv by simp
    have d: "list_all success res \<longrightarrow> map res_version res = v # ?F"
      using ih_d ok(5) rv by simp
    have e: "applied (store self')
         = fold remove1 (map res_version (filter success res)) (applied (store self))"
      using ih_e ok(4,5) rv by (simp add: mark_rolled_back_remove1)
    from a b c d e show ?thesis
      unfolding eq by blast
  qed
qed

lemma rollback_loop_catalog:
  assumes "rollback_loop steps (List.enumerate i vs) self w = (res, self', w')"
    and "k \<notin> set vs"
  shows "map_of (migrations self') k = map_of (migrations self) k"
  using assms
proof (induction vs arbitrary: i self w res self' w')
  case Nil
  then show ?case by simp
next
  case (Cons v vs)
  from Cons.prems(2) have kv: "k \<noteq> v" and kvs: "k \<notin> set vs"
    by simp_all
  from Cons.prems(1)
  have loop: "rollback_loop steps ((i, v) # List.enumerate (Suc i) vs) self w = (res, self', w')"
    by (simp add: enumerate_simps)
  from loop show ?case
  proof (cases rule: rollback_loop_Cons_cases)
    case stop
    then show ?thesis by simp
  next
    case skip
    from Cons.IH [OF skip(3) kvs] show ?thesis .
  next
    case (fail m r w1)
    with kv show ?thesis by (simp add: map_of_map_entry)
  next
    case (ok m r w1 rs)
    from Cons.IH [OF ok(6) kvs] kv show ?thesis
      by (simp add: map_of_map_entry)
  qed
qed

lemma rollback_loop_status:
  assumes "registered (migrations self)"
    and "distinct vs"
    and "rollback_loop steps (List.enumerate i vs) self w = (res, self', w')"
    and "x \<in> set res"
  shows "map_option status (map_of (migrations self') (res_version x))
           = Some (if success x then ROLLED_BACK else FAILED)"
  using assms
proof (induction vs arbitrary: i self w res self' w')
  case Nil
  then show ?case by simp
next
  case (Cons v vs)
  from Cons.prems(2) have vn: "v \<notin> set vs" and d1: "distinct vs"
    by simp_all
  from Cons.prems(3)
  have loop: "rollback_loop steps ((i, v) # List.enumerate (Suc i) vs) self w = (res, self', w')"
    by (simp add: enumerate_simps)
  from loop show ?case
  proof (cases rule: rollback_loop_Cons_cases)
    case stop
    with Cons.prems(4) show ?thesis by simp
  next
    case skip
    from Cons.IH [OF Cons.prems(1) d1 skip(3) Cons.prems(4)] show ?thesis .
  next
    case (fail m r w1)
    have "res_version r = v"
      using run_down_version [of "runner self" m w] fail(2,3) registered_lookup [OF Cons.prems(1)]
      by simp
    with fail Cons.prems(4) show ?thesis
      by (simp add: map_of_map_entry)
  next
    case (ok m r w1 rs)
    have rv: "res_version r = v"
      using run_down_version [of "runner self" m w] ok(2,3) registered_lookup [OF Cons.prems(1)]
      by simp
    let ?self1 = "self\<lparr>store := mark_rolled_back v (store self),
               migrations :=
                 AList.map_entry v (\<lambda>m. m\<lparr>status := ROLLED_BACK\<rparr>) (migrations self)\<rparr>"
    have r1: "registered (migrations ?self1)"
      using Cons.prems(1) by (simp add: registered_map_entry)
    from Cons.prems(4) ok(5) consider "x = r" | "x \<in> set rs"
      by auto
    then show ?thesis
    proof cases
      case 1
      from rollback_loop_catalog [OF ok(6) vn] ok(2,4) rv 1 show ?thesis
        by (simp add: map_of_map_entry)
    next
      case 2
      from Cons.IH [OF r1 d1 ok(6) 2] show ?thesis .
    qed
  qed
qed

lemma rollback_to_loop_migrations:
  assumes "rollback_to_loop target vs self w = (res, self', w')"
  shows "migrations self' = migrations self \<and> runner self' = runner self
         \<and> hooks self' = hooks self"
  using assms
proof (induction vs arbitrary: self w res self' w')
  case Nil
  then show ?case by simp
next
  case (Cons v vs)
  from Cons.prems show ?case
  proof (cases rule: rollback_to_loop_Cons_cases)
    case stop
    then show ?thesis by simp
  next
    case skip
    from Cons.IH [OF skip(3)] show ?thesis .
  next
    case (run m r w1 rs)
    from Cons.IH [OF run(5)] show ?thesis
      by (simp split: if_splits)
  qed
qed

lemma rollback_to_loop_spec:
  assumes "registered (migrations self)"
    and "rollback_to_loop target vs self w = (res, self', w')"
  shows "map res_version res
           = filter (\<lambda>v. map_of (migrations self) v \<noteq> None) (takeWhile (\<lambda>v. target < v) vs)
     \<and> applied (store self')
         = fold remove1 (map res_version (filter success res)) (applied (store self))"
  using assms
proof (induction vs arbitrary: self w res self' w')
  case Nil
  then show ?case by simp
next
  case (Cons v vs)
  from Cons.prems(2) show ?case
  proof (cases rule: rollback_to_loop_Cons_cases)
    case stop
    then show ?thesis by (simp add: not_less)
  next
    case skip
    from Cons.IH [OF Cons.prems(1) skip(3)] skip(1,2) show ?thesis
      by (simp add: not_le)
  next
    case (run m r w1 rs)
    have rv: "res_version r = v"
      using run_down_version [of "runner self" m w] run(2,3) registered_lookup [OF Cons.prems(1)]
      by simp
    let ?self1 = "if success r then self\<lparr>store := mark_rolled_back v (store self)\<rparr> else self"
    have m1: "migrations ?self1 = migrations self"
      by simp
    have r1: "registered (migrations ?self1)"
      using Cons.prems(1) by simp
    from Cons.IH [OF r1 run(5)] run(1,2,4) rv show ?thesis
      unfolding m1 by (simp add: not_le mark_rolled_back_remove1)
  qed
qed

lemma rollback_to_loop_hooks:
  "rollback_to_loop target vs (self\<lparr>hooks := h\<rparr>) w
     = (case rollback_to_loop target vs self w of
          (res, self', w') \<Rightarrow> (res, self'\<lparr>hooks := h\<rparr>, w'))"
proof (induction vs arbitrary: self w)
  case Nil
  show ?case by simp
next
  case (Cons v vs)
  show ?case
  proof (cases "v \<le> target")
    case True
    then show ?thesis by simp
  next
    case False
    show ?thesis
    proof (cases "map_of (migrations self) v")
      case None
      with False Cons.IH show ?thesis by simp
    next
      case (Some m)
      obtain r w1 where rd: "run_down (runner self) m w = (r, w1)"
        by fastforce
      have sw: "self\<lparr>hooks := h, store := x\<rparr> = (self\<lparr>store := x\<rparr>)\<lparr>hooks := h\<rparr>" for x
        by simp
      show ?thesis
      proof (cases "success r")
        case True
        with False Some rd Cons.IH [of "self\<lparr>store := mark_rolled_back v (store self)\<rparr>" w1]
        show ?thesis by (simp add: sw split: prod.splits)
      next
        case no: False
        with False Some rd Cons.IH [of self w1]
        show ?thesis by (simp split: prod.splits)
      qed
    qed
  qed
qed

lemma migrate_loop_hooks:
  "migrate_loop target ks (self\<lparr>hooks := h\<rparr>) w
     = (case migrate_loop target ks self w of
          (res, self', w') \<Rightarrow> (res, self'\<lparr>hooks := h\<rparr>, w'))"
proof (induction ks arbitrary: self w)
  case Nil
  show ?case by simp
next
  case (Cons k ks)
  let ?m = "the (map_of (migrations self) k)"
  show ?case
  proof (cases "beyond_target target (version ?m)")
    case True
    then show ?thesis by simp
  next
    case False
    obtain r w1 where ru: "run_up (runner self) ?m w = (r, w1)"
      by fastforce
    have sw: "self\<lparr>hooks := h, store := x, migrations := y\<rparr>
                = (self\<lparr>store := x, migrations := y\<rparr>)\<lparr>hooks := h\<rparr>" for x y
      by simp
    show ?thesis
    proof (cases "success r")
      case True
      with False ru
        Cons.IH [of "self\<lparr>store := mark_applied (version ?m) (store self),
               migrations :=
                 AList.map_entry k
                   (\<lambda>m. m\<lparr>status := APPLIED, applied_at := Some (wall_clock w1)\<rparr>)
                   (migrations self)\<rparr>" w1]
      show ?thesis by (simp add: sw split: prod.splits)
    next
      case no: False
      with False ru show ?thesis by simp
    qed
  qed
qed

lemma fold_remove1_filter:
  "\<forall>v\<in>set vs. \<not> P v \<Longrightarrow> filter P (fold remove1 vs xs) = filter P xs"
proof (induction vs arbitrary: xs)
  case Nil
  then show ?case by simp
next
  case (Cons v vs)
  have "filter P (remove1 v xs) = filter P xs"
    using Cons.prems by (induction xs) auto
  with Cons show ?case by simp
qed

lemma rollback_unfold:
  assumes "rollback steps self w = (results, self', w')"
  shows "rollback_loop steps (List.enumerate 0 (rev (applied (store self)))) self
           (emit self ''before_rollback'' None w)
           = (results, self', snd (snd (rollback_loop steps
                 (List.enumerate 0 (rev (applied (store self)))) self
                 (emit self ''before_rollback'' None w))))"
  using assms
  by (auto simp: rollback_def get_applied_def Let_def split: prod.splits)

lemma rollback_to_unfold:
  "rollback_to target self w = rollback_to_loop target (rev (applied (store self))) self w"
  by (simp add: rollback_to_def get_applied_def)

lemma run_handlers_step:
  "run_handlers (h # hs) d w = run_handlers hs d (snd (h d w))"
  by (simp split: prod.splits outcome.splits)

lemma emit_no_hooks: "emit (self\<lparr>hooks := Map.empty\<rparr>) event d w = w"
  by (simp add: emit_def)

lemma emit_hooks_only:
  "hooks self1 = hooks self \<Longrightarrow> emit self1 event d w = emit self event d w"
  by (simp add: emit_def)

lemma pending_versions_hooks:
  "pending_versions (self\<lparr>hooks := h\<rparr>) = pending_versions self"
  by (simp add: pending_versions_def)

lemma migrate_hooks:
  "migrate target self w
     = (case migrate target (self\<lparr>hooks := Map.empty\<rparr>) (emit self ''before_migrate'' None w) of
          (res, s1, w1) \<Rightarrow>
            (res, s1\<lparr>hooks := hooks self\<rparr>, emit self ''after_migrate'' (Some res) w1))"
proof -
  let ?w0 = "emit self ''before_migrate'' None w"
  obtain res s1 w1 where loop: "migrate_loop target (pending_versions self) self ?w0 = (res, s1, w1)"
    by (rule prod_cases3)
  from migrate_loop_frame [OF loop] have h: "hooks s1 = hooks self"
    by (elim conjE)
  have s1: "s1\<lparr>hooks := Map.empty, hooks := hooks self\<rparr> = s1"
    unfolding h [symmetric] by simp
  have l0: "migrate_loop target (pending_versions self) (self\<lparr>hooks := Map.empty\<rparr>) ?w0
              = (res, s1\<lparr>hooks := Map.empty\<rparr>, w1)"
    unfolding migrate_loop_hooks loop by simp
  have m0: "migrate target (self\<lparr>hooks := Map.empty\<rparr>) ?w0 = (res, s1\<lparr>hooks := Map.empty\<rparr>, w1)"
    unfolding migrate_def Let_def emit_no_hooks pending_versions_hooks l0
    by (simp add: emit_no_hooks)
  have m1: "migrate target self w = (res, s1, emit s1 ''after_migrate'' (Some res) w1)"
    unfolding migrate_def Let_def loop by simp
  show ?thesis
    unfolding m0 m1 by (simp add: s1 emit_hooks_only [OF h])
qed

lemma migrate_loop_all_succeed:
  assumes "distinct ks"
    and "\<And>k w1. k \<in> set ks \<Longrightarrow>
           success (fst (run_up (runner self) (the (map_of (migrations self) k)) w1))"
    and "migrate_loop None ks self w = (res, self', w')"
  shows "length res = length ks \<and> list_all success res"
  using assms
proof (induction ks arbitrary: self w res self' w')
  case Nil
  then show ?case by simp
next
  case (Cons k ks)
  from Cons.prems(3) show ?case
  proof (cases rule: migrate_loop_Cons_cases)
    case stop
    then show ?thesis by (simp add: beyond_target_def)
  next
    case (fail r w1)
    with Cons.prems(2) [of k w] show ?thesis by simp
  next
    case (ok r w1 rs)
    let ?self1 = "self\<lparr>store := mark_applied (version (the (map_of (migrations self) k))) (store self),
               migrations :=
                 AList.map_entry k
                   (\<lambda>m. m\<lparr>status := APPLIED, applied_at := Some (wall_clock w1)\<rparr>)
                   (migrations self)\<rparr>"
    have d1: "distinct ks" and kn: "k \<notin> set ks"
      using Cons.prems(1) by simp_all
    have a1: "success (fst (run_up (runner ?self1) (the (map_of (migrations ?self1) k')) w2))"
      if "k' \<in> set ks" for k' w2
    proof -
      from that kn have "k' \<noteq> k" by auto
      then have "map_of (migrations ?self1) k' = map_of (migrations self) k'"
        by (simp add: map_of_map_entry)
      with Cons.prems(2) [of k' w2] that show ?thesis by simp
    qed
    from Cons.IH [OF d1 a1 ok(5)] ok(3,4) show ?thesis
      by simp
  qed
qed

subsection \<open>The ledger\<close>

text \<open>
  C6. In a fresh ledger no version is applied; after \<^verbatim>\<open>mark_applied(v)\<close>, \<^verbatim>\<open>is_applied(v)\<close>
  holds, whatever the ledger was. Marking twice is marking once, and marking a version
  that is already present changes nothing. In a ledger without \<open>v\<close>, \<^verbatim>\<open>mark_applied(v)\<close>
  appends \<open>v\<close> and \<^verbatim>\<open>mark_rolled_back(v)\<close> changes nothing.
\<close>

theorem ledger_marks:
  "\<not> is_applied v MigrationStore_init
   \<and> is_applied v (mark_applied v s)
   \<and> mark_applied v (mark_applied v s) = mark_applied v s
   \<and> (is_applied v s \<longrightarrow> mark_applied v s = s)
   \<and> (\<not> is_applied v s \<longrightarrow>
        applied (mark_applied v s) = applied s @ [v] \<and> mark_rolled_back v s = s)"
  by (simp add: is_applied_def mark_applied_def mark_rolled_back_def MigrationStore_init_def)

theorem ledger_marks_witness:
  "\<not> is_applied ''001'' MigrationStore_init
   \<and> is_applied ''001'' (mark_applied ''001'' MigrationStore_init)
   \<and> is_applied ''001'' ex_store
   \<and> mark_applied ''001'' ex_store = ex_store
   \<and> \<not> is_applied ''002'' ex_store
   \<and> applied (mark_applied ''002'' ex_store) = [''001'', ''002'']
   \<and> mark_applied ''002'' (mark_applied ''002'' ex_store) = mark_applied ''002'' ex_store
   \<and> mark_rolled_back ''002'' ex_store = ex_store"
  using ledger_marks [of "''001''" ex_store] ledger_marks [of "''002''" ex_store]
    ledger_marks [of "''001''" MigrationStore_init]
  by (simp add: is_applied_def ex_store_def)


subsection \<open>The checksum\<close>

text \<open>
  C7, as amended. Constructed directly and without a checksum, a \<^verbatim>\<open>Migration\<close> gets the
  first eight hex digits of the MD5 of \<^verbatim>\<open>up_sql + down_sql\<close>: two such constructions
  whose concatenated payloads agree (so also two with the same payloads) have the same
  checksum.
\<close>

theorem checksum_same_content:
  "us1 @ ds1 = us2 @ ds2 \<Longrightarrow>
   checksum (Migration_init v1 n1 us1 ds1 uf1 df1 [] ts1 st1)
     = checksum (Migration_init v2 n2 us2 ds2 uf2 df2 [] ts2 st2)
   \<and> checksum (Migration_init v1 n1 us1 ds1 uf1 df1 [] ts1 st1)
     = take 8 (md5_hexdigest (us1 @ ds1))"
  by (simp add: Migration_init_def)


theorem checksum_same_content_witness:
  "''CREATE'' @ ''DROP'' = ''CREATE'' @ ''DROP''
   \<and> checksum (Migration_init ''001'' ''a'' ''CREATE'' ''DROP'' None None [] None PENDING
                 :: unit Migration)
     = checksum (Migration_init ''002'' ''b'' ''CREATE'' ''DROP'' (Some boom) None [] None APPLIED)"
  using checksum_same_content [of "''CREATE''" "''DROP''" "''CREATE''" "''DROP''"
      "''001''" "''a''" None None None PENDING "''002''" "''b''" "Some boom" None None APPLIED]
  by (simp add: Migration_init_def)

text \<open>
  The claim as stated fails: the payloads \<^verbatim>\<open>("ab", "c")\<close> and \<^verbatim>\<open>("a", "bc")\<close> differ, and
  both concatenate to \<^verbatim>\<open>"abc"\<close>.
\<close>

theorem checksum_collision:
  "up_sql (Migration_init ''001'' ''m'' ''ab'' ''c'' None None [] None PENDING :: unit Migration)
     \<noteq> up_sql (Migration_init ''001'' ''m'' ''a'' ''bc'' None None [] None PENDING :: unit Migration)
   \<and> checksum (Migration_init ''001'' ''m'' ''ab'' ''c'' None None [] None PENDING :: unit Migration)
     = checksum (Migration_init ''001'' ''m'' ''a'' ''bc'' None None [] None PENDING :: unit Migration)"
  by (simp add: Migration_init_def)


text \<open>
  The builder constructs its \<^verbatim>\<open>Migration\<close> before any payload is set and never computes
  the checksum again: every built migration carries the checksum of the empty content.
\<close>

lemma builder_checksum:
  "checksum (build (builder_down ds (builder_up us (MigrationBuilder_init v n))))
     = take 8 (md5_hexdigest [])"
  by (simp add: build_def builder_down_def builder_up_def MigrationBuilder_init_def
      Migration_init_def)


subsection \<open>\<^verbatim>\<open>migrate\<close>\<close>

text \<open>
  C1. When some result of \<^verbatim>\<open>migrate\<close> is a failure, it is the last one and all results
  before it are successes; the results are those of the first pending migrations, in
  order; the versions that succeeded are in the ledger; and every pending migration
  after the failing one is still pending, with its catalog entry (status included) as
  it was.
\<close>

theorem migrate_fail_fast:
  assumes "registered (migrations self)"
    and "migrate target self w = (results, self', w')"
    and "\<exists>r\<in>set results. \<not> success r"
  shows "results \<noteq> [] \<and> \<not> success (last results) \<and> list_all success (butlast results)
     \<and> map res_version results = take (length results) (pending_versions self)
     \<and> set (map res_version (butlast results)) \<subseteq> set (applied (store self'))
     \<and> (\<forall>v\<in>set (drop (length results) (pending_versions self)).
           v \<in> set (pending_versions self')
           \<and> map_of (migrations self') v = map_of (migrations self) v)"
proof -
  let ?ks = "pending_versions self"
  note pv = pending_versions_props [OF assms(1)]
  note loop = migrate_unfold [OF assms(2)]
  from migrate_loop_frame [OF loop]
  have keys: "map fst (migrations self') = map fst (migrations self)"
    and but: "list_all success (butlast results)"
    by simp_all
  from assms(3) have ne: "results \<noteq> []" by auto
  have last: "\<not> success (last results)"
  proof
    assume "success (last results)"
    with but ne have "list_all success results"
      by (metis append_butlast_last_id list.pred_inject(1,2) list_all_append)
    with assms(3) show False by (simp add: list_all_iff)
  qed
  from migrate_loop_versions [OF assms(1) pv(1) loop]
  have vers: "map res_version results = take (length results) ?ks" by simp
  have succ: "filter success results = butlast results"
  proof -
    have "results = butlast results @ [last results]" using ne by simp
    then have "filter success results
                 = filter success (butlast results) @ filter success [last results]"
      by (metis filter_append)
    with but last show ?thesis by (simp add: list_all_iff)
  qed
  from migrate_loop_ledger [OF assms(1) pv(1) pv(2) pv(4) loop] succ
  have led: "applied (store self') = applied (store self) @ map res_version (butlast results)"
    by simp
  have rest: "v \<in> set (pending_versions self')
              \<and> map_of (migrations self') v = map_of (migrations self) v"
    if v: "v \<in> set (drop (length results) ?ks)" for v
  proof -
    from v have vin: "v \<in> set ?ks" by (meson in_set_dropD)
    have vnot: "v \<notin> set (take (length results) ?ks)"
      using v pv(2)
      by (metis append_take_drop_id disjoint_iff distinct_append)
    have "set (map res_version (butlast results)) \<subseteq> set (take (length results) ?ks)"
      unfolding vers [symmetric] by (auto dest: in_set_butlastD)
    with vnot vin pv(4) led have "v \<notin> set (applied (store self'))" by auto
    moreover from vin have "v \<in> set (sort (map fst (migrations self)))"
      by (simp add: pending_versions_def Let_def)
    ultimately have "v \<in> set (pending_versions self')"
      by (simp add: pending_versions_def get_applied_def keys)
    with migrate_loop_catalog [OF loop vnot] show ?thesis by simp
  qed
  from ne last but vers led rest show ?thesis by auto
qed

theorem migrate_fail_fast_witness:
  "registered (migrations migrator_up_raises)
   \<and> map success (fst (migrate None migrator_up_raises w0)) = [True, False]
   \<and> map res_version (fst (migrate None migrator_up_raises w0)) = [''001'', ''002'']
   \<and> pending_versions migrator_up_raises = [''001'', ''002'', ''003'']
   \<and> applied (store (fst (snd (migrate None migrator_up_raises w0)))) = [''001'']
   \<and> pending_versions (fst (snd (migrate None migrator_up_raises w0))) = [''002'', ''003'']
   \<and> map_of (migrations (fst (snd (migrate None migrator_up_raises w0)))) ''003''
       = map_of (migrations migrator_up_raises) ''003''"
proof -
  let ?r = "migrate None migrator_up_raises w0"
  have reg: "registered (migrations migrator_up_raises)"
    by (simp add: example_defs registered_def)
  have run: "?r = (fst ?r, fst (snd ?r), snd (snd ?r))"
    by simp
  have bad: "\<exists>r\<in>set (fst ?r). \<not> success r"
    by (simp add: example_defs run_defs)
  from migrate_fail_fast [OF reg run bad] reg show ?thesis
    by (simp add: example_defs run_defs)
qed

text \<open>
  C4, as amended. With a target that is not the empty string, \<^verbatim>\<open>migrate(target)\<close> attempts
  the pending migrations whose version does not exceed the target, ascending, and stops
  at the first failure: the attempted versions are a prefix of them, and all of them
  when no result is a failure. Every success is in the ledger. No pending migration
  above the target is attempted: it stays pending, its catalog entry as it was.
\<close>

theorem migrate_target:
  assumes "registered (migrations self)"
    and "target \<noteq> []"
    and "migrate (Some target) self w = (results, self', w')"
  shows "map res_version results
           = take (length results) (filter (\<lambda>v. v \<le> target) (pending_versions self))
     \<and> (list_all success results \<longrightarrow>
          map res_version results = filter (\<lambda>v. v \<le> target) (pending_versions self))
     \<and> list_all success (butlast results)
     \<and> (\<forall>r\<in>set results. success r \<longrightarrow> res_version r \<in> set (applied (store self')))
     \<and> (\<forall>v\<in>set (pending_versions self). target < v \<longrightarrow>
           v \<notin> set (map res_version results)
           \<and> v \<in> set (pending_versions self')
           \<and> map_of (migrations self') v = map_of (migrations self) v)"
proof -
  let ?ks = "pending_versions self"
  let ?n = "length results"
  note pv = pending_versions_props [OF assms(1)]
  note loop = migrate_unfold [OF assms(3)]
  from migrate_loop_frame [OF loop]
  have keys: "map fst (migrations self') = map fst (migrations self)"
    and but: "list_all success (butlast results)"
    and len: "?n \<le> length ?ks"
    by simp_all
  from migrate_loop_versions [OF assms(1) pv(1) loop] assms(2)
  have vers: "map res_version results = take ?n ?ks"
    and within: "\<forall>k\<in>set (take ?n ?ks). k \<le> target"
    and stop: "?n < length ?ks \<and> list_all success results \<longrightarrow> target < ?ks ! ?n"
    by (simp_all add: beyond_target_Some not_less)
  from migrate_loop_ledger [OF assms(1) pv(1) pv(2) pv(4) loop]
  have led: "applied (store self') = applied (store self) @ map res_version (filter success results)"
    by simp
  have c1: "map res_version results = take ?n (filter (\<lambda>v. v \<le> target) ?ks)"
    using filter_le_prefix [OF len within] vers by simp
  have c2: "map res_version results = filter (\<lambda>v. v \<le> target) ?ks"
    if all: "list_all success results"
  proof (cases "?n < length ?ks")
    case True
    with stop all have "target < ?ks ! ?n" by simp
    from filter_le_sorted_stop [OF pv(3) True this within] vers show ?thesis by simp
  next
    case False
    with len have "?n = length ?ks" by simp
    with within vers show ?thesis by (simp add: filter_id_conv)
  qed
  have c4: "res_version r \<in> set (applied (store self'))" if "r \<in> set results" "success r" for r
    using that led by auto
  have c5: "v \<notin> set (map res_version results) \<and> v \<in> set (pending_versions self')
            \<and> map_of (migrations self') v = map_of (migrations self) v"
    if v: "v \<in> set ?ks" "target < v" for v
  proof -
    have vnot: "v \<notin> set (take ?n ?ks)"
      using within v(2) by auto
    have "set (map res_version (filter success results)) \<subseteq> set (take ?n ?ks)"
      unfolding vers [symmetric] by auto
    with vnot v(1) pv(4) led have "v \<notin> set (applied (store self'))" by auto
    moreover from v(1) have "v \<in> set (sort (map fst (migrations self)))"
      by (simp add: pending_versions_def Let_def)
    ultimately have "v \<in> set (pending_versions self')"
      by (simp add: pending_versions_def get_applied_def keys)
    with migrate_loop_catalog [OF loop vnot] vnot vers show ?thesis by simp
  qed
  from c1 c2 but c4 c5 show ?thesis by blast
qed

theorem migrate_target_witness:
  "registered (migrations migrator3) \<and> ''002'' \<noteq> []
   \<and> pending_versions migrator3 = [''001'', ''002'', ''003'']
   \<and> map res_version (fst (migrate (Some ''002'') migrator3 w0)) = [''001'', ''002'']
   \<and> map success (fst (migrate (Some ''002'') migrator3 w0)) = [True, True]
   \<and> applied (store (fst (snd (migrate (Some ''002'') migrator3 w0)))) = [''001'', ''002'']
   \<and> pending_versions (fst (snd (migrate (Some ''002'') migrator3 w0))) = [''003'']
   \<and> map_of (migrations (fst (snd (migrate (Some ''002'') migrator3 w0)))) ''003''
       = map_of (migrations migrator3) ''003''"
proof -
  let ?r = "migrate (Some ''002'') migrator3 w0"
  have reg: "registered (migrations migrator3)"
    by (simp add: example_defs migrator3_def registered_def)
  have ne: "''002'' \<noteq> []"
    by simp
  have run: "?r = (fst ?r, fst (snd ?r), snd (snd ?r))"
    by simp
  from migrate_target [OF reg ne run] reg show ?thesis
    by (simp add: example_defs migrator3_def run_defs)
qed

text \<open>
  The claim as stated fails for the empty string, which is a target that is given and
  not \<^verbatim>\<open>None\<close>: it is falsy, so nothing is limited, and all three migrations are
  applied although each version exceeds it.
\<close>

theorem migrate_empty_target:
  "map res_version (fst (migrate (Some []) migrator3 w0)) = [''001'', ''002'', ''003'']
   \<and> [] < ''001'' \<and> [] < ''002'' \<and> [] < ''003''
   \<and> applied (store (fst (snd (migrate (Some []) migrator3 w0)))) = [''001'', ''002'', ''003'']"
  by (simp add: example_defs migrator3_def run_defs)

subsection \<open>\<^verbatim>\<open>rollback\<close>\<close>

text \<open>
  C3, as amended. \<^verbatim>\<open>rollback(steps)\<close> walks the last \<open>steps\<close> entries of the ledger, newest
  first, and attempts the backward execution of those that are in the catalog, in that
  order, stopping at the first failure: the attempted versions are a prefix of them,
  and all of them when no result is a failure. An entry that is not in the catalog is
  skipped and takes one of the \<open>steps\<close> slots. Every success is removed from the
  ledger. So \<^verbatim>\<open>rollback(1)\<close> after applying 001, 002, 003 rolls back 003 only, and
  \<^verbatim>\<open>rollback(2)\<close> rolls back 003, then 002.
\<close>

theorem rollback_steps:
  assumes "registered (migrations self)"
    and "rollback steps self w = (results, self', w')"
  shows "map res_version results
           = take (length results)
               (filter (\<lambda>v. map_of (migrations self) v \<noteq> None)
                  (take (nat steps) (rev (applied (store self)))))
     \<and> (list_all success results \<longrightarrow>
          map res_version results
            = filter (\<lambda>v. map_of (migrations self) v \<noteq> None)
                (take (nat steps) (rev (applied (store self)))))
     \<and> list_all success (butlast results)
     \<and> applied (store self')
         = fold remove1 (map res_version (filter success results)) (applied (store self))"
proof -
  have n: "nat (steps - int 0) = nat steps"
    by simp
  from rollback_loop_spec [OF assms(1) rollback_unfold [OF assms(2)]] show ?thesis
    unfolding n by blast
qed

theorem rollback_steps_witness:
  "registered (migrations migrator3_applied)
   \<and> applied (store migrator3_applied) = [''001'', ''002'', ''003'']
   \<and> map res_version (fst (rollback 1 migrator3_applied w0)) = [''003'']
   \<and> applied (store (fst (snd (rollback 1 migrator3_applied w0)))) = [''001'', ''002'']
   \<and> map res_version (fst (rollback 2 migrator3_applied w0)) = [''003'', ''002'']
   \<and> map success (fst (rollback 2 migrator3_applied w0)) = [True, True]
   \<and> applied (store (fst (snd (rollback 2 migrator3_applied w0)))) = [''001'']"
proof -
  have reg: "registered (migrations migrator3_applied)"
    and led: "applied (store migrator3_applied) = [''001'', ''002'', ''003'']"
    by (simp_all add: migrator3_applied_eval example_defs registered_def)
  have "\<exists>res s' w'. rollback 1 migrator3_applied w0 = (res, s', w')
          \<and> map res_version res = [''003''] \<and> applied (store s') = [''001'', ''002'']"
    by (simp add: migrator3_applied_eval example_defs run_defs)
  then obtain res1 s1 w1 where run1: "rollback 1 migrator3_applied w0 = (res1, s1, w1)"
    and ev1: "map res_version res1 = [''003'']" "applied (store s1) = [''001'', ''002'']"
    by (elim exE conjE) (rule that)
  have "\<exists>res s' w'. rollback 2 migrator3_applied w0 = (res, s', w')
          \<and> map res_version res = [''003'', ''002''] \<and> map success res = [True, True]
          \<and> applied (store s') = [''001'']"
    by (simp add: migrator3_applied_eval example_defs run_defs)
  then obtain res2 s2 w2 where run2: "rollback 2 migrator3_applied w0 = (res2, s2, w2)"
    and ev2: "map res_version res2 = [''003'', ''002'']" "map success res2 = [True, True]"
      "applied (store s2) = [''001'']"
    by (elim exE conjE) (rule that)
  have "?thesis"
    using reg led run1 ev1 run2 ev2 by simp
  with rollback_steps [OF reg run1] rollback_steps [OF reg run2] show ?thesis
    by -
qed

text \<open>
  The claim as stated fails: with the ledger 001, 999 and only 001 in the catalog,
  \<^verbatim>\<open>rollback(1)\<close> spends its one step on 999 and attempts nothing, although 001 is
  applied and in the catalog.
\<close>

theorem rollback_orphan_takes_step:
  "fst (rollback 1 migrator_orphan w0) = []
   \<and> is_applied ''001'' (store migrator_orphan)
   \<and> map_of (migrations migrator_orphan) ''001'' \<noteq> None
   \<and> applied (store (fst (snd (rollback 1 migrator_orphan w0)))) = [''001'', ''999'']"
  by (simp add: example_defs run_defs is_applied_def)

subsection \<open>\<^verbatim>\<open>rollback_to\<close>\<close>

text \<open>
  C5. When every applied version is in the catalog, \<^verbatim>\<open>rollback_to(target)\<close> attempts the
  backward execution of the applied versions, newest first, for as long as the walked
  version is greater than the target, and of no other; each success is removed from
  the ledger; the applied versions that do not exceed the target stay as they are; and
  the registered hooks have no part in it: with any other hooks the call returns the
  same results, ledger, catalog and world.
\<close>

theorem rollback_to_target:
  assumes "registered (migrations self)"
    and "set (applied (store self)) \<subseteq> set (map fst (migrations self))"
    and "rollback_to target self w = (results, self', w')"
  shows "map res_version results = takeWhile (\<lambda>v. target < v) (rev (applied (store self)))
     \<and> applied (store self')
         = fold remove1 (map res_version (filter success results)) (applied (store self))
     \<and> filter (\<lambda>v. v \<le> target) (applied (store self'))
         = filter (\<lambda>v. v \<le> target) (applied (store self))
     \<and> (\<forall>h. rollback_to target (self\<lparr>hooks := h\<rparr>) w = (results, self'\<lparr>hooks := h\<rparr>, w'))"
proof -
  let ?walk = "rev (applied (store self))"
  from assms(3) have loop: "rollback_to_loop target ?walk self w = (results, self', w')"
    by (simp add: rollback_to_unfold)
  have incat: "\<forall>v\<in>set (takeWhile (\<lambda>v. target < v) ?walk). map_of (migrations self) v \<noteq> None"
  proof
    fix v assume "v \<in> set (takeWhile (\<lambda>v. target < v) ?walk)"
    then have "v \<in> set (applied (store self))"
      by (auto dest: set_takeWhileD)
    with assms(2) have "v \<in> fst ` set (migrations self)" by auto
    then show "map_of (migrations self) v \<noteq> None"
      by (simp add: map_of_eq_None_iff)
  qed
  from rollback_to_loop_spec [OF assms(1) loop]
  have vers0: "map res_version results
                 = filter (\<lambda>v. map_of (migrations self) v \<noteq> None)
                     (takeWhile (\<lambda>v. target < v) ?walk)"
    and led: "applied (store self')
                = fold remove1 (map res_version (filter success results)) (applied (store self))"
    by blast+
  from vers0 incat have vers: "map res_version results = takeWhile (\<lambda>v. target < v) ?walk"
    by (simp add: filter_id_conv)
  have "\<forall>v\<in>set (map res_version (filter success results)). \<not> v \<le> target"
  proof
    fix v assume "v \<in> set (map res_version (filter success results))"
    then have "v \<in> set (map res_version results)" by auto
    with vers have "v \<in> set (takeWhile (\<lambda>v. target < v) ?walk)" by simp
    then show "\<not> v \<le> target" by (auto dest: set_takeWhileD)
  qed
  from fold_remove1_filter [OF this] led
  have keep: "filter (\<lambda>v. v \<le> target) (applied (store self'))
                = filter (\<lambda>v. v \<le> target) (applied (store self))"
    by simp
  have nohook: "rollback_to target (self\<lparr>hooks := h\<rparr>) w = (results, self'\<lparr>hooks := h\<rparr>, w')" for h
    using loop by (simp add: rollback_to_unfold rollback_to_loop_hooks)
  from vers led keep nohook show ?thesis by blast
qed

theorem rollback_to_target_witness:
  "registered (migrations migrator3_applied)
   \<and> set (applied (store migrator3_applied)) \<subseteq> set (map fst (migrations migrator3_applied))
   \<and> applied (store migrator3_applied) = [''001'', ''002'', ''003'']
   \<and> map res_version (fst (rollback_to ''001'' migrator3_applied w0)) = [''003'', ''002'']
   \<and> map success (fst (rollback_to ''001'' migrator3_applied w0)) = [True, True]
   \<and> applied (store (fst (snd (rollback_to ''001'' migrator3_applied w0)))) = [''001'']"
proof -
  have reg: "registered (migrations migrator3_applied)"
    and sub: "set (applied (store migrator3_applied)) \<subseteq> set (map fst (migrations migrator3_applied))"
    and led: "applied (store migrator3_applied) = [''001'', ''002'', ''003'']"
    by (simp_all add: migrator3_applied_eval example_defs registered_def)
  have "\<exists>res s' w'. rollback_to ''001'' migrator3_applied w0 = (res, s', w')
          \<and> map success res = [True, True]"
    by (simp add: migrator3_applied_eval example_defs run_defs)
  then obtain res s' w' where run: "rollback_to ''001'' migrator3_applied w0 = (res, s', w')"
    and ev: "map success res = [True, True]"
    by (elim exE conjE) (rule that)
  have "map res_version res = takeWhile (\<lambda>v. ''001'' < v) (rev (applied (store migrator3_applied)))"
    using rollback_to_target [OF reg sub run] by (rule conjunct1)
  then have vs: "map res_version res = [''003'', ''002'']"
    unfolding led by simp
  have "filter success res = res"
    using ev by (cases res; cases "tl res") auto
  with rollback_to_target [OF reg sub run]
  have "applied (store s') = fold remove1 (map res_version res) (applied (store migrator3_applied))"
    by simp
  then have ld: "applied (store s') = [''001'']"
    unfolding led vs by simp
  from reg sub led run ev vs ld show ?thesis
    by simp
qed

text \<open>
  C10. \<^verbatim>\<open>rollback_to\<close> returns the catalog as it was: no \<^verbatim>\<open>status\<close> and no \<^verbatim>\<open>applied_at\<close>
  is written, whether a backward execution succeeds or fails. \<^verbatim>\<open>rollback\<close> does write
  the status: in a registered catalog and a ledger without repetition, the migration of
  every result is \<^verbatim>\<open>rolled_back\<close> after a success and \<^verbatim>\<open>failed\<close> after a failure.
\<close>

theorem rollback_to_keeps_status:
  "migrations (fst (snd (rollback_to target self w))) = migrations self
   \<and> (registered (migrations self) \<and> distinct (applied (store self)) \<longrightarrow>
        (\<forall>r\<in>set (fst (rollback steps self w)).
           map_option status
             (map_of (migrations (fst (snd (rollback steps self w)))) (res_version r))
           = Some (if success r then ROLLED_BACK else FAILED)))"
proof -
  let ?t = "rollback_to target self w"
  have "rollback_to_loop target (rev (applied (store self))) self w
          = (fst ?t, fst (snd ?t), snd (snd ?t))"
    by (simp add: rollback_to_unfold)
  from rollback_to_loop_migrations [OF this]
  have a: "migrations (fst (snd ?t)) = migrations self"
    by simp
  let ?r = "rollback steps self w"
  have b: "map_option status (map_of (migrations (fst (snd ?r))) (res_version r))
             = Some (if success r then ROLLED_BACK else FAILED)"
    if reg: "registered (migrations self)" and dist: "distinct (applied (store self))"
      and r: "r \<in> set (fst ?r)" for r
  proof -
    have run: "?r = (fst ?r, fst (snd ?r), snd (snd ?r))"
      by simp
    have d: "distinct (rev (applied (store self)))"
      using dist by simp
    from rollback_loop_status [OF reg d rollback_unfold [OF run] r] show ?thesis .
  qed
  from a b show ?thesis by blast
qed

theorem rollback_to_keeps_status_witness:
  "registered (migrations migrator_down_raises)
   \<and> distinct (applied (store migrator_down_raises))
   \<and> map success (fst (rollback_to ''001'' migrator_down_raises w0)) = [False, True]
   \<and> map (\<lambda>(k, m). (k, status m, applied_at m))
        (migrations (fst (snd (rollback_to ''001'' migrator_down_raises w0))))
       = [(''003'', APPLIED, Some 0), (''001'', APPLIED, Some 0), (''002'', APPLIED, Some 0)]
   \<and> map success (fst (rollback 1 migrator_down_raises w0)) = [False]
   \<and> map (\<lambda>(k, m). (k, status m))
        (migrations (fst (snd (rollback 1 migrator_down_raises w0))))
       = [(''003'', FAILED), (''001'', APPLIED), (''002'', APPLIED)]"
proof -
  have reg: "registered (migrations migrator_down_raises)"
    and dist: "distinct (applied (store migrator_down_raises))"
    by (simp_all add: migrator_down_raises_eval example_defs registered_def)
  have "\<exists>res s' w'. rollback_to ''001'' migrator_down_raises w0 = (res, s', w')
          \<and> map success res = [False, True]
          \<and> map (\<lambda>(k, m). (k, status m, applied_at m)) (migrations s')
              = [(''003'', APPLIED, Some 0), (''001'', APPLIED, Some 0), (''002'', APPLIED, Some 0)]"
    by (simp add: migrator_down_raises_eval example_defs run_defs)
  then obtain res1 s1 w1 where run1: "rollback_to ''001'' migrator_down_raises w0 = (res1, s1, w1)"
    and ev1: "map success res1 = [False, True]"
      "map (\<lambda>(k, m). (k, status m, applied_at m)) (migrations s1)
         = [(''003'', APPLIED, Some 0), (''001'', APPLIED, Some 0), (''002'', APPLIED, Some 0)]"
    by (elim exE conjE) (rule that)
  have "\<exists>res s' w'. rollback 1 migrator_down_raises w0 = (res, s', w')
          \<and> map success res = [False]
          \<and> map (\<lambda>(k, m). (k, status m)) (migrations s')
              = [(''003'', FAILED), (''001'', APPLIED), (''002'', APPLIED)]"
    by (simp add: migrator_down_raises_eval example_defs run_defs)
  then obtain res2 s2 w2 where run2: "rollback 1 migrator_down_raises w0 = (res2, s2, w2)"
    and ev2: "map success res2 = [False]"
      "map (\<lambda>(k, m). (k, status m)) (migrations s2)
         = [(''003'', FAILED), (''001'', APPLIED), (''002'', APPLIED)]"
    by (elim exE conjE) (rule that)
  have "?thesis"
    using reg dist run1 ev1 run2 ev2 by simp
  with rollback_to_keeps_status [of "''001''" migrator_down_raises w0 1] show ?thesis
    by -
qed

text \<open>
  C2. \<^verbatim>\<open>rollback_to\<close> has no \<^verbatim>\<open>break\<close> after a failed result. With 001, 002, 003 applied
  and a backward procedure of 003 that raises, \<^verbatim>\<open>rollback_to("001")\<close> gets the failure
  for 003 and goes on to roll back 002, which leaves the ledger 001, 003;
  \<^verbatim>\<open>rollback(3)\<close> on the same state stops at the failure of 003.
\<close>

theorem rollback_to_continues_after_failure:
  "applied (store migrator_down_raises) = [''001'', ''002'', ''003'']
   \<and> map res_version (fst (rollback_to ''001'' migrator_down_raises w0)) = [''003'', ''002'']
   \<and> map success (fst (rollback_to ''001'' migrator_down_raises w0)) = [False, True]
   \<and> applied (store (fst (snd (rollback_to ''001'' migrator_down_raises w0)))) = [''001'', ''003'']
   \<and> map res_version (fst (rollback 3 migrator_down_raises w0)) = [''003'']
   \<and> map success (fst (rollback 3 migrator_down_raises w0)) = [False]
   \<and> applied (store (fst (snd (rollback 3 migrator_down_raises w0)))) = [''001'', ''002'', ''003'']"
proof -
  have "\<exists>res s' w'. rollback_to ''001'' migrator_down_raises w0 = (res, s', w')
          \<and> map res_version res = [''003'', ''002''] \<and> map success res = [False, True]
          \<and> applied (store s') = [''001'', ''003'']"
    by (simp add: migrator_down_raises_eval example_defs run_defs)
  moreover have "\<exists>res s' w'. rollback 3 migrator_down_raises w0 = (res, s', w')
          \<and> map res_version res = [''003''] \<and> map success res = [False]
          \<and> applied (store s') = [''001'', ''002'', ''003'']"
    by (simp add: migrator_down_raises_eval example_defs run_defs)
  moreover have "applied (store migrator_down_raises) = [''001'', ''002'', ''003'']"
    by (simp add: migrator_down_raises_eval)
  ultimately show ?thesis
    by (elim exE conjE) simp
qed

end
